theory Spec2Isabelle
  imports Main "HOL-Library.Sublist" "HOL-Library.Char_ord" "HOL-Library.List_Lexorder"
    "HOL-Library.Multiset"
begin

section \<open>Python values and strings\<close>

text \<open>
  The script \<^verbatim>\<open>generate-license-csv.py\<close> works on what \<^verbatim>\<open>yaml.safe_load\<close> returns:
  untyped Python values. They are modelled by \<open>pyval\<close>: the YAML null, booleans, integers,
  strings, sequences and mappings (floats, timestamps and binaries are left out).

  A Python \<^verbatim>\<open>str\<close> is a sequence of code points and \<^verbatim>\<open>len\<close> counts code points. A
  \<open>char\<close> of this theory stands for one code point in the range U+0000 .. U+00FF, so that
  \<open>length\<close> counts what \<^verbatim>\<open>len\<close> counts; texts with code points from U+0100 upwards are
  outside the model. The character tests below are Python's, restricted to that range.
\<close>

datatype pyval =
    PNone
  | PBool bool
  | PInt int
  | PStr string
  | PList "pyval list"
  | PDict "(pyval \<times> pyval) list"

datatype pyerr = AttributeError | TypeError

definition NL :: char where
  "NL = CHR 0x0A"

definition code :: "char \<Rightarrow> nat" where
  "code c = of_char c"

text \<open>\<^verbatim>\<open>str.isspace\<close>, which is also the class \<^verbatim>\<open>\s\<close> of a \<^verbatim>\<open>str\<close> pattern and what
  \<^verbatim>\<open>str.strip()\<close> removes: TAB .. CR, FS .. US, space, NEL and the no-break space.\<close>

definition isspace :: "char \<Rightarrow> bool" where
  "isspace c = (let n = code c in
     (9 \<le> n \<and> n \<le> 13) \<or> (28 \<le> n \<and> n \<le> 32) \<or> n = 133 \<or> n = 160)"

text \<open>The class \<^verbatim>\<open>\d\<close> of a \<^verbatim>\<open>str\<close> pattern: the decimal digits (category Nd).\<close>

definition isdigit :: "char \<Rightarrow> bool" where
  "isdigit c = (let n = code c in 48 \<le> n \<and> n \<le> 57)"

text \<open>\<^verbatim>\<open>str.isalpha\<close>: the letters (categories Lu, Ll, Lt, Lm, Lo).\<close>

definition isalpha :: "char \<Rightarrow> bool" where
  "isalpha c = (let n = code c in
     (65 \<le> n \<and> n \<le> 90) \<or> (97 \<le> n \<and> n \<le> 122) \<or> n = 170 \<or> n = 181 \<or> n = 186 \<or>
     (192 \<le> n \<and> n \<le> 214) \<or> (216 \<le> n \<and> n \<le> 246) \<or> (248 \<le> n \<and> n \<le> 255))"

text \<open>The class \<^verbatim>\<open>[A-Z]\<close>.\<close>

definition isupper_AZ :: "char \<Rightarrow> bool" where
  "isupper_AZ c = (let n = code c in 65 \<le> n \<and> n \<le> 90)"

text \<open>\<^verbatim>\<open>str.lower\<close>, one code point at a time.\<close>

definition lower_char :: "char \<Rightarrow> char" where
  "lower_char c = (let n = code c in
     if (65 \<le> n \<and> n \<le> 90) \<or> (192 \<le> n \<and> n \<le> 214) \<or> (216 \<le> n \<and> n \<le> 222)
     then char_of (n + 32) else c)"

definition lower :: "string \<Rightarrow> string" where
  "lower s = map lower_char s"

text \<open>\<^verbatim>\<open>needle in hay\<close> on two strings: \<open>needle\<close> occurs in \<open>hay\<close> as a contiguous block.\<close>

fun contains :: "string \<Rightarrow> string \<Rightarrow> bool" where
  "contains needle [] = (needle = [])"
| "contains needle (c # cs) = (prefix needle (c # cs) \<or> contains needle cs)"

text \<open>\<^verbatim>\<open>s.strip()\<close> and \<^verbatim>\<open>s.rstrip(chars)\<close>.\<close>

definition strip :: "string \<Rightarrow> string" where
  "strip s = rev (dropWhile isspace (rev (dropWhile isspace s)))"

definition rstrip :: "string \<Rightarrow> string \<Rightarrow> string" where
  "rstrip chars s = rev (dropWhile (\<lambda>c. c \<in> set chars) (rev s))"

text \<open>\<^verbatim>\<open>s.replace(old, new)\<close> for one-character \<open>old\<close> and \<open>new\<close>.\<close>

definition replace :: "char \<Rightarrow> char \<Rightarrow> string \<Rightarrow> string" where
  "replace old new s = map (\<lambda>c. if c = old then new else c) s"

text \<open>\<^verbatim>\<open>re.sub(r'\s+', ' ', s)\<close>: every maximal run of whitespace becomes one space.\<close>

function sub_ws :: "string \<Rightarrow> string" where
  "sub_ws [] = []"
| "sub_ws (c # cs) =
     (if isspace c then CHR '' '' # sub_ws (dropWhile isspace cs) else c # sub_ws cs)"
  by pat_completeness auto
termination
  by (relation "measure length") (auto simp: less_Suc_eq_le length_dropWhile_le)

text \<open>Truth value of a Python object, as \<^verbatim>\<open>not x\<close> and \<^verbatim>\<open>if x\<close> test it.\<close>

fun truthy :: "pyval \<Rightarrow> bool" where
  "truthy PNone = False"
| "truthy (PBool b) = b"
| "truthy (PInt i) = (i \<noteq> 0)"
| "truthy (PStr s) = (s \<noteq> [])"
| "truthy (PList xs) = (xs \<noteq> [])"
| "truthy (PDict kvs) = (kvs \<noteq> [])"

section \<open>Regular expressions with backtracking\<close>

text \<open>
  The fragment of Python's \<^verbatim>\<open>re\<close> syntax that \<^verbatim>\<open>valid_holder_pattern\<close> uses. Quantifiers
  apply to character classes only, except the greedy optional group \<^verbatim>\<open>(?:r)?\<close>.
\<close>

datatype regex =
    Lit string
  | Cls "char \<Rightarrow> bool"
  | Rep nat "char \<Rightarrow> bool"
  | Star "char \<Rightarrow> bool"
  | Plus "char \<Rightarrow> bool"
  | LazyRep nat nat "char \<Rightarrow> bool"
  | Opt regex
  | Seq regex regex
  | Alt regex regex
  | Grp regex
  | Eol

text \<open>
  The matcher is the backtracking search of \<^verbatim>\<open>re\<close>: it tries the alternatives of the
  pattern in priority order and hands each way of matching to the continuation \<open>k\<close>, which
  stands for the rest of the pattern; the first alternative on which the continuation
  succeeds is the result. A continuation receives the text still unread and the text
  captured by the group.

  \<open>greedy p s k\<close> is \<^verbatim>\<open>X*\<close>: as many characters of class \<open>p\<close> as possible first, then fewer.
  \<open>lazy lo hi p s k\<close> is \<^verbatim>\<open>X{lo,hi}?\<close>: as few as possible first, then more.
\<close>

fun greedy :: "(char \<Rightarrow> bool) \<Rightarrow> string \<Rightarrow> (string \<Rightarrow> 'r option) \<Rightarrow> 'r option" where
  "greedy p [] k = k []"
| "greedy p (c # cs) k =
     (if p c then (case greedy p cs k of Some r \<Rightarrow> Some r | None \<Rightarrow> k (c # cs))
      else k (c # cs))"

fun exactly :: "nat \<Rightarrow> (char \<Rightarrow> bool) \<Rightarrow> string \<Rightarrow> (string \<Rightarrow> 'r option) \<Rightarrow> 'r option" where
  "exactly 0 p s k = k s"
| "exactly (Suc n) p [] k = None"
| "exactly (Suc n) p (c # cs) k = (if p c then exactly n p cs k else None)"

fun lazy :: "nat \<Rightarrow> nat \<Rightarrow> (char \<Rightarrow> bool) \<Rightarrow> string \<Rightarrow> (string \<Rightarrow> 'r option) \<Rightarrow> 'r option" where
  "lazy (Suc lo) hi p [] k = None"
| "lazy (Suc lo) hi p (c # cs) k = (if p c then lazy lo (hi - 1) p cs k else None)"
| "lazy 0 hi p s k =
     (case k s of Some r \<Rightarrow> Some r
      | None \<Rightarrow>
         (case s of [] \<Rightarrow> None
          | c # cs \<Rightarrow> if 0 < hi \<and> p c then lazy 0 (hi - 1) p cs k else None))"

fun bt :: "regex \<Rightarrow> string \<Rightarrow> string option \<Rightarrow> (string \<Rightarrow> string option \<Rightarrow> 'r option) \<Rightarrow> 'r option" where
  "bt (Lit w) s g k = (if prefix w s then k (drop (length w) s) g else None)"
| "bt (Cls p) s g k = exactly 1 p s (\<lambda>s'. k s' g)"
| "bt (Rep n p) s g k = exactly n p s (\<lambda>s'. k s' g)"
| "bt (Star p) s g k = greedy p s (\<lambda>s'. k s' g)"
| "bt (Plus p) s g k = exactly 1 p s (\<lambda>s'. greedy p s' (\<lambda>s''. k s'' g))"
| "bt (LazyRep lo hi p) s g k = lazy lo hi p s (\<lambda>s'. k s' g)"
| "bt (Opt r) s g k = (case bt r s g k of Some x \<Rightarrow> Some x | None \<Rightarrow> k s g)"
| "bt (Seq r1 r2) s g k = bt r1 s g (\<lambda>s' g'. bt r2 s' g' k)"
| "bt (Alt r1 r2) s g k = (case bt r1 s g k of Some x \<Rightarrow> Some x | None \<Rightarrow> bt r2 s g k)"
| "bt (Grp r) s g k = bt r s g (\<lambda>s' g'. k s' (Some (take (length s - length s') s)))"
| "bt Eol s g k = (if s = [] \<or> hd s = NL then k s g else None)"

fun seqs :: "regex list \<Rightarrow> regex" where
  "seqs [] = Lit []"
| "seqs [r] = r"
| "seqs (r # rs) = Seq r (seqs rs)"

section \<open>The copyright extractor\<close>

text \<open>
  \<^verbatim>\<open>valid_holder_pattern\<close> (line 22 of the script), piece by piece:
  \<^verbatim>\<open>Copyright\s+  (?:\(c\)\s*)?  (?:<C2><A9>\s*)?  (?:\d{4}[-,\s\d]*\s+)?\<close>
  \<^verbatim>\<open>([A-Z][^\n]{3,80}?)  (?:\s*<[^>]+>)?  \s*  (?:\n|$)\<close>.
  The literal of the third piece is, in the file, the two code points U+00C2 U+00A9
  (the bytes C3 82 C2 A9 in UTF-8), not the single code point U+00A9.
  The pattern is used with \<^verbatim>\<open>re.MULTILINE\<close>, under which \<^verbatim>\<open>$\<close> is \<open>Eol\<close>.
\<close>

definition valid_holder_pattern :: regex where
  "valid_holder_pattern = seqs
     [Lit ''Copyright'', Plus isspace,
      Opt (seqs [Lit ''(c)'', Star isspace]),
      Opt (seqs [Lit [CHR 0xC2, CHR 0xA9], Star isspace]),
      Opt (seqs [Rep 4 isdigit,
                 Star (\<lambda>c. c = CHR ''-'' \<or> c = CHR '','' \<or> isspace c \<or> isdigit c),
                 Plus isspace]),
      Grp (seqs [Cls isupper_AZ, LazyRep 3 80 (\<lambda>c. c \<noteq> NL)]),
      Opt (seqs [Star isspace, Lit ''<'', Plus (\<lambda>c. c \<noteq> CHR ''>''), Lit ''>'']),
      Star isspace,
      Alt (Lit [NL]) Eol]"

definition template_indicators :: "string list" where
  "template_indicators =
     [''owner'', ''holder'', ''licensor'', ''entity'', ''permission'', ''notice'',
      ''granting'', ''laws'', ''author or'', ''contributors'', ''reserved'',
      ''yyyy'', ''[year]'', ''[name'', ''<year>'', ''<name>'', ''all rights'',
      ''subject to'', ''terms and conditions'', ''license.'', ''licensed under'']"

text \<open>A match of the pattern at the start of \<open>s\<close>: group 1 and the text after the match.\<close>

definition match_here :: "string \<Rightarrow> (string \<times> string) option" where
  "match_here s =
     bt valid_holder_pattern s None
       (\<lambda>s' g. case g of Some h \<Rightarrow> Some (h, s') | None \<Rightarrow> None)"

subsection \<open>A match leaves a shorter text\<close>

lemma greedy_suffix:
  "greedy p s k = Some x \<Longrightarrow> \<exists>s'. suffix s' s \<and> k s' = Some x"
proof (induction p s k rule: greedy.induct)
  case (1 p k)
  then show ?case by auto
next
  case (2 p c cs k)
  show ?case
  proof (cases "p c \<and> greedy p cs k \<noteq> None")
    case True
    with 2 obtain s' where "suffix s' cs" "k s' = Some x"
      by (auto split: option.splits)
    then show ?thesis by (auto intro: suffix_ConsI)
  next
    case False
    with 2 have "k (c # cs) = Some x"
      by (auto split: if_splits option.splits)
    then show ?thesis by auto
  qed
qed

lemma exactly_suffix:
  "exactly n p s k = Some x \<Longrightarrow> \<exists>s'. suffix s' s \<and> k s' = Some x"
proof (induction n p s k rule: exactly.induct)
  case (3 n p c cs k)
  then obtain s' where "suffix s' cs" "k s' = Some x"
    by (auto split: if_splits)
  then show ?case by (auto intro: suffix_ConsI)
qed auto

lemma lazy_suffix:
  "lazy lo hi p s k = Some x \<Longrightarrow> \<exists>s'. suffix s' s \<and> k s' = Some x"
proof (induction lo hi p s k rule: lazy.induct)
  case (1 lo hi p k)
  then show ?case by simp
next
  case (2 lo hi p c cs k)
  then obtain s' where "suffix s' cs" "k s' = Some x"
    by (auto split: if_splits)
  then show ?case by (auto intro: suffix_ConsI)
next
  case (3 hi p s k)
  show ?case
  proof (cases "k s")
    case (Some r)
    with 3 show ?thesis by auto
  next
    case None
    with 3(2) obtain c cs where s: "s = c # cs" and h: "0 < hi" "p c"
      and l: "lazy 0 (hi - 1) p cs k = Some x"
      by (auto split: list.splits if_splits)
    from 3(1) [OF None s] h l obtain s' where "suffix s' cs" "k s' = Some x"
      by auto
    with s show ?thesis by (auto intro: suffix_ConsI)
  qed
qed

lemma bt_suffix:
  "bt r s g k = Some x \<Longrightarrow> \<exists>s' g'. suffix s' s \<and> k s' g' = Some x"
proof (induction r arbitrary: s g k)
  case (Lit w)
  then show ?case
    by (auto split: if_splits intro: suffix_drop)
next
  case (Cls p)
  then show ?case using exactly_suffix [of 1 p s "\<lambda>s'. k s' g" x] by auto
next
  case (Rep n p)
  then show ?case using exactly_suffix [of n p s "\<lambda>s'. k s' g" x] by auto
next
  case (Star p)
  then show ?case using greedy_suffix [of p s "\<lambda>s'. k s' g" x] by auto
next
  case (Plus p)
  then obtain s1 where s1: "suffix s1 s" "greedy p s1 (\<lambda>s''. k s'' g) = Some x"
    using exactly_suffix [of 1 p s "\<lambda>s'. greedy p s' (\<lambda>s''. k s'' g)" x] by auto
  then obtain s2 where "suffix s2 s1" "k s2 g = Some x"
    using greedy_suffix [of p s1 "\<lambda>s''. k s'' g" x] by auto
  with s1 show ?case by (blast intro: suffix_order.trans)
next
  case (LazyRep lo hi p)
  then show ?case using lazy_suffix [of lo hi p s "\<lambda>s'. k s' g" x] by auto
next
  case (Opt r)
  then show ?case by (fastforce split: option.splits)
next
  case (Seq r1 r2)
  from Seq.prems obtain s1 g1 where s1: "suffix s1 s" "bt r2 s1 g1 k = Some x"
    using Seq.IH(1) [of s g "\<lambda>s' g'. bt r2 s' g' k"] by auto
  then obtain s2 g2 where "suffix s2 s1" "k s2 g2 = Some x"
    using Seq.IH(2) by blast
  with s1 show ?case by (blast intro: suffix_order.trans)
next
  case (Alt r1 r2)
  then show ?case by (fastforce split: option.splits)
next
  case (Grp r)
  then show ?case
    using Grp.IH [of s g "\<lambda>s' g'. k s' (Some (take (length s - length s') s))"] by auto
next
  case Eol
  then show ?case by (auto split: if_splits)
qed

lemma match_here_shorter:
  assumes "match_here s = Some (h, s')"
  shows "length s' < length s"
proof -
  let ?k = "\<lambda>s' g. case g of Some h \<Rightarrow> Some (h, s') | None \<Rightarrow> None"
  obtain rest where v: "valid_holder_pattern = Seq (Lit ''Copyright'') rest"
    by (simp add: valid_holder_pattern_def)
  from assms have p: "prefix ''Copyright'' s"
    and b: "bt rest (drop 9 s) None ?k = Some (h, s')"
    by (auto simp: match_here_def v eval_nat_numeral split: if_splits)
  from bt_suffix [OF b] obtain t g' where t: "suffix t (drop 9 s)" "?k t g' = Some (h, s')"
    by blast
  then have "t = s'" by (auto split: option.splits)
  with t have "length s' \<le> length s - 9" by (auto dest: suffix_length_le)
  moreover from p have "9 \<le> length s" by (auto dest: prefix_length_le)
  ultimately show ?thesis by simp
qed

text \<open>
  \<^verbatim>\<open>re.finditer(valid_holder_pattern, text, re.MULTILINE)\<close>, as the list of the group 1 of
  the matches: the matches are found from left to right, the search for the next one
  starting where the previous match ended.
\<close>

function finditer :: "string \<Rightarrow> string list" where
  "finditer s =
     (case match_here s of
        Some (h, s') \<Rightarrow> h # finditer s'
      | None \<Rightarrow> (case s of [] \<Rightarrow> [] | c # cs \<Rightarrow> finditer cs))"
  by pat_completeness auto
termination
  by (relation "measure length") (auto dest: match_here_shorter)

declare finditer.simps [simp del]

text \<open>
  The body of the inner loop (lines 40 to 61). \<open>clean\<close> is the clean-up of a match,
  \<open>rejected\<close> the three tests that \<^verbatim>\<open>continue\<close>, \<open>keep_shorter\<close> the last two lines,
  and \<open>inner_body\<close> the whole body as a function from the old \<^verbatim>\<open>best_match\<close> to the
  new one; \<^verbatim>\<open>None\<close> and the empty string are the values of \<^verbatim>\<open>best_match\<close> for which
  \<^verbatim>\<open>not best_match\<close> holds.
\<close>

definition clean :: "string \<Rightarrow> string" where
  "clean h = rstrip ''.,;:'' (sub_ws (strip h))"

definition alphas :: "string \<Rightarrow> nat" where
  "alphas candidate = length (filter isalpha candidate)"

definition rejected :: "string \<Rightarrow> bool" where
  "rejected candidate =
     (list_ex (\<lambda>indicator. contains indicator (lower candidate)) template_indicators
      \<or> length candidate < 5 \<or> length candidate > 80
      \<or> alphas candidate < 3)"

definition keep_shorter :: "string option \<Rightarrow> string \<Rightarrow> string option" where
  "keep_shorter best_match candidate =
     (case best_match of
        None \<Rightarrow> Some candidate
      | Some m \<Rightarrow> if m = [] \<or> length candidate < length m then Some candidate
                 else best_match)"

definition inner_body :: "string option \<Rightarrow> string \<Rightarrow> string option" where
  "inner_body best_match h =
     (let candidate = clean h in
      if rejected candidate then best_match
      else keep_shorter best_match candidate)"

text \<open>
  The outer loop (lines 33 to 61). A text that is not truthy is skipped; \<^verbatim>\<open>re.finditer\<close>
  raises \<^verbatim>\<open>TypeError\<close> on a truthy text that is not a string.
\<close>

fun scan_texts :: "string option \<Rightarrow> pyval list \<Rightarrow> pyerr + string option" where
  "scan_texts best_match [] = Inr best_match"
| "scan_texts best_match (text # texts) =
     (if \<not> truthy text then scan_texts best_match texts
      else (case text of
              PStr s \<Rightarrow> scan_texts (foldl inner_body best_match (finditer s)) texts
            | _ \<Rightarrow> Inl TypeError))"

text \<open>The fallback on the package name (lines 66 to 74); \<^verbatim>\<open>.lower()\<close> exists on strings only.\<close>

definition fallback :: "pyval \<Rightarrow> pyerr + string" where
  "fallback package_name =
     (case package_name of
        PStr n \<Rightarrow>
          Inr (if contains ''datadog'' (lower n) then ''Datadog, Inc.''
               else if contains ''rust'' (lower n) \<or> n \<in> set [''libc'', ''std'', ''core'']
                    then ''The Rust Project Developers''
               else ''The '' @ n @ '' Authors'')
      | _ \<Rightarrow> Inl AttributeError)"

definition extract_copyright :: "pyval list \<Rightarrow> pyval \<Rightarrow> pyerr + string" where
  "extract_copyright license_texts package_name =
     (case scan_texts None license_texts of
        Inl e \<Rightarrow> Inl e
      | Inr best_match \<Rightarrow>
          (case best_match of
             Some m \<Rightarrow> if m \<noteq> [] then Inr m else fallback package_name
           | None \<Rightarrow> fallback package_name))"

section \<open>The aggregation\<close>

text \<open>Sequencing of steps that may raise: the first exception ends the computation.\<close>

definition and_then :: "'e + 'a \<Rightarrow> ('a \<Rightarrow> 'e + 'b) \<Rightarrow> 'e + 'b" where
  "and_then m f = (case m of Inl e \<Rightarrow> Inl e | Inr x \<Rightarrow> f x)"

text \<open>\<^verbatim>\<open>obj.get(key, default)\<close>: a method of mappings only.\<close>

fun py_get :: "pyval \<Rightarrow> string \<Rightarrow> pyval \<Rightarrow> pyerr + pyval" where
  "py_get (PDict kvs) key d = Inr (case map_of kvs (PStr key) of Some v \<Rightarrow> v | None \<Rightarrow> d)"
| "py_get _ key d = Inl AttributeError"

text \<open>\<^verbatim>\<open>for x in obj\<close>: the items of a sequence, the keys of a mapping, the characters of a
  string; the other values are not iterable.\<close>

fun py_iter :: "pyval \<Rightarrow> pyerr + pyval list" where
  "py_iter (PList xs) = Inr xs"
| "py_iter (PDict kvs) = Inr (map fst kvs)"
| "py_iter (PStr s) = Inr (map (\<lambda>c. PStr [c]) s)"
| "py_iter _ = Inl TypeError"

text \<open>
  Keys of a dictionary: sequences and mappings are not hashable, and two keys are the same
  key when they are equal in Python, where \<^verbatim>\<open>True == 1\<close> and \<^verbatim>\<open>False == 0\<close>.
\<close>

fun hashable :: "pyval \<Rightarrow> bool" where
  "hashable (PList xs) = False"
| "hashable (PDict kvs) = False"
| "hashable _ = True"

fun as_key :: "pyval \<Rightarrow> pyval" where
  "as_key (PBool b) = PInt (if b then 1 else 0)"
| "as_key v = v"

definition py_eq :: "pyval \<Rightarrow> pyval \<Rightarrow> bool" where
  "py_eq a b = (as_key a = as_key b)"

record summary =
  component :: pyval
  origin :: pyval
  license :: pyval
  copyright :: pyval

text \<open>The \<^verbatim>\<open>OrderedDict\<close> \<^verbatim>\<open>components\<close>: its items in insertion order.\<close>

type_synonym components = "(pyval \<times> summary) list"

definition py_in :: "pyval \<Rightarrow> components \<Rightarrow> pyerr + bool" where
  "py_in k d = (if hashable k then Inr (list_ex (\<lambda>(k', v). py_eq k' k) d) else Inl TypeError)"

definition setitem :: "components \<Rightarrow> pyval \<Rightarrow> summary \<Rightarrow> components" where
  "setitem d k v =
     (if list_ex (\<lambda>(k', v'). py_eq k' k) d
      then map (\<lambda>(k', v'). if py_eq k' k then (k', v) else (k', v')) d
      else d @ [(k, v)])"

text \<open>Lines 96 to 98: the \<^verbatim>\<open>text\<close> of each license object.\<close>

fun collect_texts :: "pyval list \<Rightarrow> pyerr + pyval list" where
  "collect_texts [] = Inr []"
| "collect_texts (lic # lics) =
     and_then (py_get lic ''text'' (PStr [])) (\<lambda>t.
     and_then (collect_texts lics) (\<lambda>ts. Inr (t # ts)))"

text \<open>Lines 103 to 111: the second fallback, for an empty \<^verbatim>\<open>copyright_holder\<close>.\<close>

definition second_fallback :: "pyval \<Rightarrow> pyval \<Rightarrow> pyerr + string" where
  "second_fallback package_name repository =
     (case package_name of
        PStr n \<Rightarrow>
          if contains ''rust'' (lower n) then Inr ''The Rust Project Developers''
          else (case repository of
                  PStr r \<Rightarrow>
                    Inr (if contains ''rust'' (lower r) then ''The Rust Project Developers''
                         else if contains ''datadog'' (lower r) then ''Datadog, Inc.''
                         else n @ '' Authors'')
                | _ \<Rightarrow> Inl AttributeError)
      | _ \<Rightarrow> Inl AttributeError)"

text \<open>The body of the loop over the entries (lines 86 to 118).\<close>

definition loop_body :: "components \<Rightarrow> pyval \<Rightarrow> pyerr + components" where
  "loop_body components lib =
     and_then (py_get lib ''package_name'' (PStr [])) (\<lambda>package_name.
     and_then (py_get lib ''package_version'' (PStr [])) (\<lambda>package_version.
     and_then (py_get lib ''repository'' (PStr [])) (\<lambda>repository.
     and_then (py_get lib ''license'' (PStr [])) (\<lambda>license_id.
     and_then (py_in package_name components) (\<lambda>seen.
     if seen then Inr components
     else
       and_then (py_get lib ''licenses'' (PList [])) (\<lambda>licenses.
       and_then (py_iter licenses) (\<lambda>lics.
       and_then (collect_texts lics) (\<lambda>license_texts.
       and_then (extract_copyright license_texts package_name) (\<lambda>copyright_holder.
       and_then (if copyright_holder = [] then second_fallback package_name repository
                 else Inr copyright_holder) (\<lambda>copyright_holder.
       Inr (setitem components package_name
              \<lparr>component = package_name, origin = repository,
               license = license_id, copyright = PStr copyright_holder\<rparr>)))))))))))"

fun loop :: "components \<Rightarrow> pyval list \<Rightarrow> pyerr + components" where
  "loop components [] = Inr components"
| "loop components (lib # libs) =
     and_then (loop_body components lib) (\<lambda>components'. loop components' libs)"

text \<open>\<^verbatim>\<open>parse_yml_to_csv\<close>, from \<open>data\<close>, the value that \<^verbatim>\<open>yaml.safe_load\<close> returned.\<close>

definition parse_yml_to_csv :: "pyval \<Rightarrow> pyerr + components" where
  "parse_yml_to_csv data =
     and_then (py_get data ''third_party_libraries'' (PList [])) (\<lambda>libraries.
     and_then (py_iter libraries) (\<lambda>libs. loop [] libs))"

section \<open>The writer\<close>

fun py_lower :: "pyval \<Rightarrow> pyerr + string" where
  "py_lower (PStr s) = Inr (lower s)"
| "py_lower _ = Inl AttributeError"

fun py_replace :: "pyval \<Rightarrow> char \<Rightarrow> char \<Rightarrow> pyerr + string" where
  "py_replace (PStr s) old new = Inr (replace old new s)"
| "py_replace _ old new = Inl AttributeError"

text \<open>
  \<^verbatim>\<open>sorted(components.values(), key=lambda x: x['component'].lower())\<close>: the keys are
  computed first, one per value and in order; the sort is stable and compares the keys as
  Python compares strings, code point by code point.
\<close>

fun keyed :: "summary list \<Rightarrow> pyerr + (string \<times> summary) list" where
  "keyed [] = Inr []"
| "keyed (x # xs) =
     and_then (py_lower (component x)) (\<lambda>k.
     and_then (keyed xs) (\<lambda>ks. Inr ((k, x) # ks)))"

definition sorted_values :: "components \<Rightarrow> pyerr + summary list" where
  "sorted_values components =
     and_then (keyed (map snd components)) (\<lambda>ks. Inr (map snd (sort_key fst ks)))"

text \<open>Lines 131 to 136: what one turn of the loop writes.\<close>

definition csv_line :: "summary \<Rightarrow> pyerr + string" where
  "csv_line c =
     and_then (py_replace (component c) (CHR '','') (CHR '';'')) (\<lambda>comp.
     and_then (py_replace (origin c) (CHR '','') (CHR '';'')) (\<lambda>origin.
     and_then (py_replace (license c) (CHR '','') (CHR '';'')) (\<lambda>lic.
     and_then (py_replace (copyright c) (CHR '','') (CHR '';'')) (\<lambda>copy.
     Inr (comp @ '','' @ origin @ '','' @ lic @ '','' @ copy @ [NL])))))"

text \<open>
  The file is passed along as the text written so far. An exception leaves the file with
  what was written before it.
\<close>

fun write_lines :: "string \<Rightarrow> summary list \<Rightarrow> string \<times> pyerr option" where
  "write_lines f [] = (f, None)"
| "write_lines f (c # cs) =
     (case csv_line c of
        Inl e \<Rightarrow> (f, Some e)
      | Inr line \<Rightarrow> write_lines (f @ line) cs)"

definition write_csv :: "components \<Rightarrow> string \<times> pyerr option" where
  "write_csv components =
     (let f = ''Component,Origin,License,Copyright'' @ [NL] in
      case sorted_values components of
        Inl e \<Rightarrow> (f, Some e)
      | Inr cs \<Rightarrow> write_lines f cs)"

section \<open>The program\<close>

text \<open>
  \<^verbatim>\<open>main\<close>, from the manifest as parsed: \<open>None\<close> when the file
  \<^verbatim>\<open>libdatadog/LICENSE-3rdparty.yml\<close> does not exist. The result is the content of
  \<^verbatim>\<open>LICENSE-3rdparty.csv\<close> (\<open>None\<close> when the program did not open it) and how the
  program ended.
\<close>

datatype ending = Exit0 | Exit1 | Raised pyerr

definition main :: "pyval option \<Rightarrow> string option \<times> ending" where
  "main manifest =
     (case manifest of
        None \<Rightarrow> (None, Exit1)
      | Some data \<Rightarrow>
          (case parse_yml_to_csv data of
             Inl e \<Rightarrow> (None, Raised e)
           | Inr components \<Rightarrow>
               (case write_csv components of
                  (f, Some e) \<Rightarrow> (Some f, Raised e)
                | (f, None) \<Rightarrow> (Some f, Exit0))))"

section \<open>Notions used in the statements\<close>

text \<open>
  The candidates of one text that survive the tests of the inner loop, in the order of the
  matches, and those of a sequence of texts, in the order of the texts.
\<close>

definition survivors :: "string \<Rightarrow> string list" where
  "survivors text = filter (\<lambda>candidate. \<not> rejected candidate) (map clean (finditer text))"

definition all_survivors :: "string list \<Rightarrow> string list" where
  "all_survivors license_texts = concat (map survivors license_texts)"

text \<open>\<open>first_shortest b cs\<close>: \<open>b\<close> is the first of the shortest strings of \<open>cs\<close>, and \<open>None\<close>
  when there is none.\<close>

definition first_shortest :: "string option \<Rightarrow> string list \<Rightarrow> bool" where
  "first_shortest b cs =
     (case b of
        None \<Rightarrow> cs = []
      | Some r \<Rightarrow> \<exists>pre post. cs = pre @ r # post
                   \<and> (\<forall>c \<in> set pre. length r < length c)
                   \<and> (\<forall>c \<in> set post. length r \<le> length c))"

text \<open>The line of the extraction example of the specification.\<close>

definition jane_line :: string where
  "jane_line = ''Copyright (c) 2020 Jane Doe <jane@example.com>''"

text \<open>
  The end of \<^verbatim>\<open>valid_holder_pattern\<close>, \<^verbatim>\<open>\s*(?:\n|$)\<close>, and the continuation that
  \<open>match_here\<close> gives to the matcher, by name.
\<close>

definition line_end :: regex where
  "line_end = Seq (Star isspace) (Alt (Lit [NL]) Eol)"

definition final :: "string \<Rightarrow> string option \<Rightarrow> (string \<times> string) option" where
  "final s' g = (case g of Some h \<Rightarrow> Some (h, s') | None \<Rightarrow> None)"

text \<open>
  A well-formed manifest: a mapping whose entries, under \<^verbatim>\<open>third_party_libraries\<close>, form a
  sequence of mappings; in an entry each of \<^verbatim>\<open>package_name\<close>, \<^verbatim>\<open>package_version\<close>,
  \<^verbatim>\<open>repository\<close> and \<^verbatim>\<open>license\<close> is a string or is missing, and \<^verbatim>\<open>licenses\<close> is missing
  or a sequence of mappings whose \<^verbatim>\<open>text\<close> is a string or is missing.
\<close>

fun is_str :: "pyval \<Rightarrow> bool" where
  "is_str (PStr s) = True"
| "is_str v = False"

definition str_field :: "pyval \<Rightarrow> string \<Rightarrow> bool" where
  "str_field m key = (case py_get m key (PStr []) of Inr v \<Rightarrow> is_str v | Inl e \<Rightarrow> False)"

definition well_formed_entry :: "pyval \<Rightarrow> bool" where
  "well_formed_entry lib =
     (str_field lib ''package_name'' \<and> str_field lib ''package_version'' \<and>
      str_field lib ''repository'' \<and> str_field lib ''license'' \<and>
      (case py_get lib ''licenses'' (PList []) of
         Inr (PList lics) \<Rightarrow> list_all (\<lambda>lic. str_field lic ''text'') lics
       | _ \<Rightarrow> False))"

definition well_formed :: "pyval \<Rightarrow> bool" where
  "well_formed data =
     (case py_get data ''third_party_libraries'' (PList []) of
        Inr (PList libs) \<Rightarrow> list_all well_formed_entry libs
      | _ \<Rightarrow> False)"

text \<open>
  A summary whose four fields are strings, given as the tuple of the component, the
  origin, the license and the copyright; and the record that the writer derives from it:
  the four fields, every comma replaced by a semicolon, joined with commas.
\<close>

type_synonym row = "string \<times> string \<times> string \<times> string"

definition summary_of_row :: "row \<Rightarrow> summary" where
  "summary_of_row r =
     (case r of (name, orig, lic, copy) \<Rightarrow>
        \<lparr>component = PStr name, origin = PStr orig, license = PStr lic, copyright = PStr copy\<rparr>)"

definition csv_record :: "row \<Rightarrow> string" where
  "csv_record r =
     (case r of (name, orig, lic, copy) \<Rightarrow>
        replace (CHR '','') (CHR '';'') name @ '','' @ replace (CHR '','') (CHR '';'') orig @ '','' @
        replace (CHR '','') (CHR '';'') lic @ '','' @ replace (CHR '','') (CHR '';'') copy)"

text \<open>
  \<^verbatim>\<open>s.split(sep)\<close> for a separator of one character, and the lines of a document: the
  pieces between line feeds, without the empty piece after a final line feed.
\<close>

fun split :: "char \<Rightarrow> string \<Rightarrow> string list" where
  "split sep [] = [[]]"
| "split sep (c # cs) =
     (if c = sep then [] # split sep cs
      else (case split sep cs of x # xs \<Rightarrow> (c # x) # xs | [] \<Rightarrow> [[c]]))"

definition doc_lines :: "string \<Rightarrow> string list" where
  "doc_lines doc = (let ps = split NL doc in if last ps = [] then butlast ps else ps)"


definition comma_manifest :: pyval where
  "comma_manifest =
     PDict [(PStr ''third_party_libraries'', PList
       [PDict [(PStr ''package_name'', PStr ''a,b'')],
        PDict [(PStr ''package_name'', PStr ''a;b'')]])]"

definition two_manifest :: pyval where
  "two_manifest =
     PDict [(PStr ''third_party_libraries'', PList
       [PDict [(PStr ''package_name'', PStr ''b,c'')],
        PDict [(PStr ''package_name'', PStr ''a''), (PStr ''license'', PStr ''MIT'')],
        PDict [(PStr ''package_name'', PStr ''b,c''), (PStr ''license'', PStr ''MIT'')]])]"

definition break_manifest :: pyval where
  "break_manifest =
     PDict [(PStr ''third_party_libraries'', PList
       [PDict [(PStr ''package_name'', PStr ''a\<newline>z'')],
        PDict [(PStr ''package_name'', PStr ''b\<newline>z'')]])]"

definition sparse_manifest :: pyval where
  "sparse_manifest =
     PDict [(PStr ''third_party_libraries'', PList
       [PDict [(PStr ''licenses'', PList [PDict []])],
        PDict [(PStr ''package_name'', PStr ''serde'')]])]"

definition bad_manifest :: pyval where
  "bad_manifest =
     PDict [(PStr ''third_party_libraries'', PList
       [PDict [(PStr ''package_name'', PStr ''serde'')],
        PDict [(PStr ''package_name'', PInt 42)]])]"

definition null_manifest :: pyval where
  "null_manifest =
     PDict [(PStr ''third_party_libraries'', PList
       [PDict [(PStr ''package_name'', PStr ''serde''), (PStr ''repository'', PNone)]])]"

definition example_components :: components where
  "example_components =
     [(PStr ''serde'', summary_of_row (''serde'', ''https://a'', ''MIT, Apache-2.0'', ''Erick Tolnay'')),
      (PStr ''Abc'', summary_of_row (''Abc'', [], ''MIT'', ''The Abc Authors'')),
      (PStr ''libc'', summary_of_row (''libc'', ''https://c'', ''MIT'', ''The Rust Project Developers''))]"

section \<open>Properties of the extractor\<close>

subsection \<open>The two loops compute the first shortest survivor\<close>

lemma finditer_Nil: "finditer [] = []"
  by (simp add: finditer.simps match_here_def valid_holder_pattern_def)

lemma foldl_inner_body:
  "foldl inner_body b hs = foldl keep_shorter b (filter (\<lambda>c. \<not> rejected c) (map clean hs))"
  by (induction hs arbitrary: b) (simp_all add: inner_body_def)

lemma scan_texts_strings:
  "scan_texts b (map PStr texts) = Inr (foldl keep_shorter b (all_survivors texts))"
proof (induction texts arbitrary: b)
  case Nil
  then show ?case by (simp add: all_survivors_def)
next
  case (Cons t texts)
  show ?case
  proof (cases "t = []")
    case True
    then show ?thesis
      using Cons.IH [of b] by (simp add: all_survivors_def survivors_def finditer_Nil)
  next
    case False
    then show ?thesis
      using Cons.IH by (simp add: all_survivors_def survivors_def foldl_inner_body)
  qed
qed

lemma survivors_long: "c \<in> set (all_survivors texts) \<Longrightarrow> 5 \<le> length c"
  by (auto simp: all_survivors_def survivors_def rejected_def)

lemma keep_shorter_step:
  assumes "first_shortest b cs" and "\<forall>x \<in> set cs. x \<noteq> []"
  shows "first_shortest (keep_shorter b c) (cs @ [c])"
proof (cases b)
  case None
  with assms have "cs = []" by (simp add: first_shortest_def)
  moreover have "[c] = [] @ c # [] \<and> (\<forall>x \<in> set []. length c < length x)
      \<and> (\<forall>x \<in> set []. length c \<le> length x)"
    by simp
  ultimately show ?thesis
    using None unfolding first_shortest_def keep_shorter_def by (simp; blast)
next
  case (Some r)
  with assms obtain pre post where cs: "cs = pre @ r # post"
    and pre: "\<forall>x \<in> set pre. length r < length x"
    and post: "\<forall>x \<in> set post. length r \<le> length x"
    by (auto simp: first_shortest_def)
  from cs assms(2) have r: "r \<noteq> []" by auto
  show ?thesis
  proof (cases "length c < length r")
    case True
    have "\<forall>x \<in> set cs. length c < length x"
      using True pre post cs by fastforce
    then have "cs @ [c] = cs @ c # [] \<and> (\<forall>x \<in> set cs. length c < length x) \<and> (\<forall>x \<in> set []. length c \<le> length x)"
      by simp
    then show ?thesis
      using True Some unfolding first_shortest_def keep_shorter_def by (simp; blast)
  next
    case False
    have "cs @ [c] = pre @ r # (post @ [c])" using cs by simp
    moreover have "\<forall>x \<in> set (post @ [c]). length r \<le> length x" using post False by auto
    ultimately show ?thesis
      using False Some r pre unfolding first_shortest_def keep_shorter_def by (simp; blast)
  qed
qed

lemma foldl_keep_shorter:
  "\<forall>x \<in> set cs. x \<noteq> [] \<Longrightarrow> first_shortest (foldl keep_shorter None cs) cs"
proof (induction cs rule: rev_induct)
  case Nil
  then show ?case by (simp add: first_shortest_def)
next
  case (snoc c cs)
  then show ?case by (simp add: keep_shorter_step)
qed

lemma extract_copyright_strings:
  "extract_copyright (map PStr texts) package_name =
     (case foldl keep_shorter None (all_survivors texts) of
        Some m \<Rightarrow> if m \<noteq> [] then Inr m else fallback package_name
      | None \<Rightarrow> fallback package_name)"
  by (simp add: extract_copyright_def scan_texts_strings)

lemma all_survivors_nonempty: "\<forall>x \<in> set (all_survivors texts). x \<noteq> []"
  using survivors_long by fastforce

lemma foldl_keep_shorter_cases:
  "foldl keep_shorter b cs = b \<or> (\<exists>m \<in> set cs. foldl keep_shorter b cs = Some m)"
proof (induction cs arbitrary: b)
  case Nil
  then show ?case by simp
next
  case (Cons c cs)
  have "keep_shorter b c = b \<or> keep_shorter b c = Some c"
    by (simp add: keep_shorter_def split: option.splits)
  with Cons [of "keep_shorter b c"] show ?case by auto
qed

lemma foldl_keep_shorter_stays:
  "r \<noteq> [] \<Longrightarrow> \<forall>c \<in> set post. length r \<le> length c \<Longrightarrow>
   foldl keep_shorter (Some r) post = Some r"
  by (induction post) (simp_all add: keep_shorter_def)

lemma foldl_keep_shorter_first:
  assumes "r \<noteq> []"
    and "\<forall>c \<in> set pre. length r < length c"
    and "\<forall>c \<in> set post. length r \<le> length c"
  shows "foldl keep_shorter None (pre @ r # post) = Some r"
proof -
  have "keep_shorter (foldl keep_shorter None pre) r = Some r"
    using foldl_keep_shorter_cases [of None pre] assms(2)
    by (auto simp: keep_shorter_def)
  then show ?thesis
    using assms(1,3) by (simp add: foldl_keep_shorter_stays)
qed

subsection \<open>Totality and the fallback\<close>

text \<open>
  Claim C1. On every sequence of license texts and every component name (strings),
  \<open>extract_copyright\<close> raises nothing and returns a non-empty string: one of the surviving
  candidates when there is one; otherwise \<^verbatim>\<open>Datadog, Inc.\<close> when the lowercased name
  contains \<^verbatim>\<open>datadog\<close>, else \<^verbatim>\<open>The Rust Project Developers\<close> when the lowercased name
  contains \<^verbatim>\<open>rust\<close> or the name is \<^verbatim>\<open>libc\<close>, \<^verbatim>\<open>std\<close> or \<^verbatim>\<open>core\<close>, else the name between
  \<^verbatim>\<open>The\<close> and \<^verbatim>\<open>Authors\<close>, unchanged.
\<close>

theorem extract_copyright_total:
  "\<exists>r. extract_copyright (map PStr license_texts) (PStr package_name) = Inr r \<and> r \<noteq> [] \<and>
     (if all_survivors license_texts = []
      then r = (if contains ''datadog'' (lower package_name) then ''Datadog, Inc.''
                else if contains ''rust'' (lower package_name)
                        \<or> package_name \<in> {''libc'', ''std'', ''core''}
                     then ''The Rust Project Developers''
                else ''The '' @ package_name @ '' Authors'')
      else r \<in> set (all_survivors license_texts))"
proof (cases "foldl keep_shorter None (all_survivors license_texts)")
  case None
  with foldl_keep_shorter [OF all_survivors_nonempty, of license_texts]
  have "all_survivors license_texts = []" by (simp add: first_shortest_def)
  with None show ?thesis
    by (simp add: extract_copyright_strings fallback_def)
next
  case (Some m)
  with foldl_keep_shorter [OF all_survivors_nonempty, of license_texts]
  have m: "m \<in> set (all_survivors license_texts)" by (auto simp: first_shortest_def)
  then have "m \<noteq> []" using all_survivors_nonempty by blast
  with m Some show ?thesis
    by (auto simp: extract_copyright_strings)
qed

subsection \<open>The shortest candidate wins, the first among equals\<close>

text \<open>
  Claim C4. When at least one candidate survives, \<open>extract_copyright\<close> returns a survivor
  \<open>r\<close> such that every survivor scanned before it is strictly longer and every survivor
  scanned after it is at least as long: a survivor of minimum length, and the first of
  them in scan order (texts in sequence order, matches in order of position).
\<close>

theorem shortest_first_wins:
  assumes "all_survivors license_texts \<noteq> []"
  shows "\<exists>pre r post. all_survivors license_texts = pre @ r # post
           \<and> extract_copyright (map PStr license_texts) package_name = Inr r
           \<and> (\<forall>c \<in> set pre. length r < length c)
           \<and> (\<forall>c \<in> set post. length r \<le> length c)"
proof (cases "foldl keep_shorter None (all_survivors license_texts)")
  case None
  with foldl_keep_shorter [OF all_survivors_nonempty, of license_texts] assms
  show ?thesis by (simp add: first_shortest_def)
next
  case (Some m)
  with foldl_keep_shorter [OF all_survivors_nonempty, of license_texts]
  obtain pre post where p: "all_survivors license_texts = pre @ m # post"
    "\<forall>c \<in> set pre. length m < length c" "\<forall>c \<in> set post. length m \<le> length c"
    by (auto simp: first_shortest_def)
  then have "m \<in> set (all_survivors license_texts)" by simp
  then have "m \<noteq> []" using all_survivors_nonempty by blast
  with Some have "extract_copyright (map PStr license_texts) package_name = Inr m"
    by (simp add: extract_copyright_strings)
  with p show ?thesis by blast
qed

theorem shortest_first_wins_witness:
  "all_survivors [''Copyright 2020 The Jane Doe Company\<newline>Copyright 2021 Acme Inc'', ''Copyright 2019 Bob'',
      ''Copyright John Roe''] \<noteq> []
   \<and> extract_copyright (map PStr [''Copyright 2020 The Jane Doe Company\<newline>Copyright 2021 Acme Inc'',
        ''Copyright 2019 Bob'', ''Copyright John Roe'']) (PStr ''pkg'') = Inr ''Acme Inc''"
proof -
  let ?ts = "[''Copyright 2020 The Jane Doe Company\<newline>Copyright 2021 Acme Inc'', ''Copyright 2019 Bob'',
      ''Copyright John Roe'']"
  have s: "all_survivors ?ts = [''The Jane Doe Company'', ''Acme Inc'', ''John Roe'']"
    by code_simp
  then have n: "all_survivors ?ts \<noteq> []" by simp
  from shortest_first_wins [OF n, of "PStr ''pkg''"] obtain pre r post
    where p: "all_survivors ?ts = pre @ r # post"
      and e: "extract_copyright (map PStr ?ts) (PStr ''pkg'') = Inr r"
      and a: "\<forall>c \<in> set pre. length r < length c"
      and b: "\<forall>c \<in> set post. length r \<le> length c"
    by blast
  from p a b have "r = ''Acme Inc''"
    unfolding s by (auto simp: Cons_eq_append_conv)
  with e n show ?thesis by simp
qed

subsection \<open>The extraction example\<close>

lemma pattern_line_end:
  "valid_holder_pattern =
     Seq (Lit ''Copyright'') (Seq (Plus isspace)
      (Seq (Opt (seqs [Lit ''(c)'', Star isspace]))
      (Seq (Opt (seqs [Lit [CHR 0xC2, CHR 0xA9], Star isspace]))
      (Seq (Opt (seqs [Rep 4 isdigit,
                 Star (\<lambda>c. c = CHR ''-'' \<or> c = CHR '','' \<or> isspace c \<or> isdigit c),
                 Plus isspace]))
      (Seq (Grp (seqs [Cls isupper_AZ, LazyRep 3 80 (\<lambda>c. c \<noteq> NL)]))
      (Seq (Opt (seqs [Star isspace, Lit ''<'', Plus (\<lambda>c. c \<noteq> CHR ''>''), Lit ''>'']))
       line_end))))))"
  by (simp add: valid_holder_pattern_def line_end_def)

lemma match_here_final: "match_here s = bt valid_holder_pattern s None final"
  by (simp add: match_here_def final_def [abs_def])

lemma line_end_other:
  "\<not> isspace c \<Longrightarrow> bt line_end (c # cs) g k = None"
  by (auto simp: line_end_def isspace_def NL_def code_def)

lemma line_end_space:
  "isspace c \<Longrightarrow> c \<noteq> NL \<Longrightarrow> bt line_end (c # cs) g k = bt line_end cs g k"
  by (simp add: line_end_def split: option.splits)

lemma line_end_final:
  assumes "rest = [] \<or> hd rest = NL"
  shows "\<exists>r'. bt line_end rest (Some h) final = Some (h, r')"
proof (cases rest)
  case Nil
  then show ?thesis by (simp add: line_end_def final_def NL_def)
next
  case (Cons c r)
  with assms have c: "c = NL" by simp
  let ?k = "\<lambda>s'. bt (Alt (Lit [NL]) Eol) s' (Some h) final"
  have k: "\<And>s' x. ?k s' = Some x \<Longrightarrow> fst x = h"
    by (auto simp: final_def split: if_splits option.splits)
  have sp: "isspace NL" by (simp add: isspace_def NL_def code_def)
  show ?thesis
  proof (cases "greedy isspace r ?k")
    case None
    with Cons c sp show ?thesis by (simp add: line_end_def final_def)
  next
    case (Some x)
    from greedy_suffix [OF Some] k have "fst x = h" by blast
    with Some Cons c sp show ?thesis
      by (cases x) (simp add: line_end_def)
  qed
qed

lemma exactly_numeral:
  "exactly (numeral n) p (c # cs) k = (if p c then exactly (pred_numeral n) p cs k else None)"
  "exactly (numeral n) p [] k = None"
  by (simp_all add: numeral_eq_Suc)

lemma lazy_numeral:
  "lazy (numeral lo) hi p (c # cs) k = (if p c then lazy (pred_numeral lo) (hi - 1) p cs k else None)"
  "lazy (numeral lo) hi p [] k = None"
  by (simp_all add: numeral_eq_Suc)

lemma match_here_jane_line:
  assumes "rest = [] \<or> hd rest = NL"
  shows "\<exists>r'. match_here (jane_line @ rest) = Some (''Jane Doe'', r')"
proof -
  from line_end_final [OF assms] obtain r' where
    e: "bt line_end rest (Some ''Jane Doe'') final = Some (''Jane Doe'', r')"
    by blast
  have "match_here (jane_line @ rest) = Some (''Jane Doe'', r')"
    by (simp add: match_here_final pattern_line_end jane_line_def
      exactly_numeral lazy_numeral line_end_other line_end_space e
      isspace_def isdigit_def isupper_AZ_def code_def NL_def)
  then show ?thesis ..
qed

lemma match_here_needs_word: "\<not> prefix ''Copyright'' s \<Longrightarrow> match_here s = None"
  by (simp add: match_here_final pattern_line_end)

lemma prefix_of_long:
  "prefix w (xs @ ys) \<Longrightarrow> length w \<le> length xs \<Longrightarrow> prefix w xs"
  by (auto simp: prefix_append)

lemma finditer_skip:
  assumes "\<not> contains ''Copyright'' (before @ ''Copyrigh'')"
  shows "finditer (before @ ''Copyrigh'' @ s) = finditer (''Copyrigh'' @ s)"
  using assms
proof (induction before)
  case Nil
  then show ?case by simp
next
  case (Cons c b)
  from Cons.prems have n: "\<not> prefix ''Copyright'' ((c # b) @ ''Copyrigh'')"
    and r: "\<not> contains ''Copyright'' (b @ ''Copyrigh'')"
    by simp_all
  have "\<not> prefix ''Copyright'' (((c # b) @ ''Copyrigh'') @ s)"
  proof
    assume "prefix ''Copyright'' (((c # b) @ ''Copyrigh'') @ s)"
    then have "prefix ''Copyright'' ((c # b) @ ''Copyrigh'')"
      by (rule prefix_of_long) simp
    with n show False ..
  qed
  then have "match_here ((c # b) @ ''Copyrigh'' @ s) = None"
    using match_here_needs_word by simp
  then have "finditer ((c # b) @ ''Copyrigh'' @ s) = finditer (b @ ''Copyrigh'' @ s)"
    by (subst finditer.simps) simp
  with Cons.IH [OF r] show ?case by simp
qed

lemma jane_line_word: "jane_line = ''Copyrigh'' @ ''t (c) 2020 Jane Doe <jane@example.com>''"
  by (simp add: jane_line_def)

lemma clean_jane: "clean ''Jane Doe'' = ''Jane Doe''"
  by code_simp

lemma accepted_jane: "\<not> rejected ''Jane Doe''"
  by code_simp

lemma survivors_jane_text:
  assumes "\<not> contains ''Copyright'' (before @ ''Copyrigh'')"
    and "rest = [] \<or> hd rest = NL"
  shows "\<exists>others. survivors (before @ jane_line @ rest) = ''Jane Doe'' # others"
proof -
  from match_here_jane_line [OF assms(2)] obtain r' where
    m: "match_here (jane_line @ rest) = Some (''Jane Doe'', r')" by blast
  have "finditer (before @ jane_line @ rest) = finditer (jane_line @ rest)"
    using finditer_skip [OF assms(1)] by (simp add: jane_line_word)
  also have "\<dots> = ''Jane Doe'' # finditer r'"
    using m by (subst finditer.simps) simp
  finally show ?thesis
    by (simp add: survivors_def clean_jane accepted_jane)
qed

text \<open>
  Claim C2, as amended. Take a text in which the line of the example is preceded by no
  occurrence of the word \<^verbatim>\<open>Copyright\<close> (none in \<open>before\<close>, none that runs from \<open>before\<close>
  into the line) and is followed by the end of the text or by a line feed. Then
  \<^verbatim>\<open>Jane Doe\<close> is the first survivor of that text, and \<open>extract_copyright\<close> on a sequence
  that contains the text returns \<^verbatim>\<open>Jane Doe\<close>, provided that every survivor scanned
  before it is longer than 8 characters and every survivor scanned after it has at least
  8 characters.
\<close>

theorem jane_doe_line:
  assumes "\<not> contains ''Copyright'' (before @ ''Copyrigh'')"
    and "rest = [] \<or> hd rest = NL"
    and "\<forall>c \<in> set (all_survivors earlier). 8 < length c"
  shows "\<exists>others. survivors (before @ jane_line @ rest) = ''Jane Doe'' # others \<and>
           ((\<forall>c \<in> set (others @ all_survivors later). 8 \<le> length c) \<longrightarrow>
            extract_copyright (map PStr (earlier @ [before @ jane_line @ rest] @ later)) package_name
              = Inr ''Jane Doe'')"
proof -
  from survivors_jane_text [OF assms(1,2)] obtain others where
    s: "survivors (before @ jane_line @ rest) = ''Jane Doe'' # others" by blast
  have "extract_copyright (map PStr (earlier @ [before @ jane_line @ rest] @ later)) package_name
      = Inr ''Jane Doe''"
    if l: "\<forall>c \<in> set (others @ all_survivors later). 8 \<le> length c"
  proof -
    have a: "all_survivors (earlier @ [before @ jane_line @ rest] @ later)
        = all_survivors earlier @ ''Jane Doe'' # (others @ all_survivors later)"
      by (simp add: all_survivors_def s)
    have b: "foldl keep_shorter None (all_survivors earlier @ ''Jane Doe'' # (others @ all_survivors later))
        = Some ''Jane Doe''"
      using assms(3) l by (intro foldl_keep_shorter_first) (simp_all add: eval_nat_numeral)
    show ?thesis
      unfolding extract_copyright_strings a b by simp
  qed
  with s show ?thesis by blast
qed

theorem jane_doe_line_witness:
  "survivors (''MIT License\<newline>\<newline>'' @ jane_line @ ''\<newline>\<newline>Permission is hereby granted'') = [''Jane Doe'']
   \<and> all_survivors [''Copyright 2019 The Long Name Co''] = [''The Long Name Co'']
   \<and> all_survivors [''Copyright 2021 John Roe''] = [''John Roe'']
   \<and> extract_copyright
        (map PStr ([''Copyright 2019 The Long Name Co'']
           @ [''MIT License\<newline>\<newline>'' @ jane_line @ ''\<newline>\<newline>Permission is hereby granted'']
           @ [''Copyright 2021 John Roe'']))
        (PStr ''pkg'') = Inr ''Jane Doe''"
proof -
  let ?before = "''MIT License\<newline>\<newline>''"
  let ?rest = "''\<newline>\<newline>Permission is hereby granted''"
  have a: "\<not> contains ''Copyright'' (?before @ ''Copyrigh'')" by code_simp
  have b: "?rest = [] \<or> hd ?rest = NL" by (simp add: NL_def)
  have e: "all_survivors [''Copyright 2019 The Long Name Co''] = [''The Long Name Co'']"
    by code_simp
  have l: "all_survivors [''Copyright 2021 John Roe''] = [''John Roe'']"
    by code_simp
  have s: "survivors (?before @ jane_line @ ?rest) = [''Jane Doe'']"
    by code_simp
  have e': "\<forall>c \<in> set (all_survivors [''Copyright 2019 The Long Name Co'']). 8 < length c"
    unfolding e by simp
  from jane_doe_line [OF a b e', of "[''Copyright 2021 John Roe'']" "PStr ''pkg''"]
  obtain others where o: "survivors (?before @ jane_line @ ?rest) = ''Jane Doe'' # others"
    and i: "(\<forall>c \<in> set (others @ all_survivors [''Copyright 2021 John Roe'']). 8 \<le> length c) \<longrightarrow>
            extract_copyright (map PStr ([''Copyright 2019 The Long Name Co'']
              @ [?before @ jane_line @ ?rest] @ [''Copyright 2021 John Roe''])) (PStr ''pkg'')
              = Inr ''Jane Doe''"
    by blast
  from o s have "others = []" by simp
  with i l have "extract_copyright (map PStr ([''Copyright 2019 The Long Name Co'']
              @ [?before @ jane_line @ ?rest] @ [''Copyright 2021 John Roe''])) (PStr ''pkg'')
              = Inr ''Jane Doe''"
    by simp
  with s e l show ?thesis by blast
qed

text \<open>
  Claim C2 as it is stated fails: a text that contains the line and, after it, a line with
  a shorter holder yields the shorter holder; and a text in which the word \<^verbatim>\<open>Copyright\<close>
  alone on a line precedes the line yields the line itself, from its upper-case C on.
\<close>

theorem jane_doe_counterexample:
  "extract_copyright [PStr (jane_line @ ''\<newline>Copyright (c) 2021 Acme Co'')] (PStr ''pkg'')
     = Inr ''Acme Co''
   \<and> extract_copyright [PStr (''Copyright\<newline>'' @ jane_line)] (PStr ''pkg'')
     = Inr ''Copyright (c) 2020 Jane Doe''"
  by code_simp

subsection \<open>The copyright sign\<close>

text \<open>
  Claim C3 at a failing input. No text that begins with \<^verbatim>\<open>Copyright\<close>, a space and the
  copyright sign U+00A9 matches the pattern at its first word, whatever follows. So the text
  \<^verbatim>\<open>Copyright <A9> 2020 Jane Doe\<close> yields no candidate and the fallback on the name answers,
  although its holder \<^verbatim>\<open>Jane Doe\<close> starts with an uppercase letter and passes every test of
  the inner loop. The same text with the two code points U+00C2 U+00A9 in place of the sign
  yields \<^verbatim>\<open>Jane Doe\<close>.
\<close>

theorem copyright_sign_rejected:
  "match_here (''Copyright '' @ [CHR 0xA9] @ s) = None
   \<and> extract_copyright [PStr (''Copyright '' @ [CHR 0xA9] @ '' 2020 Jane Doe'')] (PStr ''widget'')
     = Inr ''The widget Authors''
   \<and> isupper_AZ (CHR ''J'') \<and> \<not> rejected ''Jane Doe''
   \<and> extract_copyright [PStr (''Copyright '' @ [CHR 0xC2, CHR 0xA9] @ '' 2020 Jane Doe'')] (PStr ''widget'')
     = Inr ''Jane Doe''"
proof -
  have "match_here (''Copyright '' @ [CHR 0xA9] @ s) = None"
    by (simp add: match_here_final pattern_line_end exactly_numeral lazy_numeral
        isspace_def isdigit_def isupper_AZ_def code_def)
  moreover have "extract_copyright [PStr (''Copyright '' @ [CHR 0xA9] @ '' 2020 Jane Doe'')] (PStr ''widget'')
     = Inr ''The widget Authors''"
    by code_simp
  moreover have "isupper_AZ (CHR ''J'') \<and> \<not> rejected ''Jane Doe''"
    by code_simp
  moreover have "extract_copyright [PStr (''Copyright '' @ [CHR 0xC2, CHR 0xA9] @ '' 2020 Jane Doe'')] (PStr ''widget'')
     = Inr ''Jane Doe''"
    by code_simp
  ultimately show ?thesis by blast
qed

section \<open>Properties of the aggregation\<close>

subsection \<open>One turn of the loop\<close>

lemma fallback_nonempty: "fallback n = Inr r \<Longrightarrow> r \<noteq> []"
  by (auto simp: fallback_def split: pyval.splits if_splits)

lemma extract_copyright_nonempty: "extract_copyright ts n = Inr r \<Longrightarrow> r \<noteq> []"
  by (auto simp: extract_copyright_def split: sum.splits option.splits if_splits
      dest: fallback_nonempty)


lemma loop_body_Inr:
  assumes "loop_body comps lib = Inr comps'"
  shows "\<exists>name. py_get lib ''package_name'' (PStr []) = Inr name \<and>
     (if list_ex (\<lambda>(k', v). py_eq k' name) comps then comps' = comps
      else \<exists>repository license_id licenses lics texts holder.
             py_get lib ''repository'' (PStr []) = Inr repository \<and>
             py_get lib ''license'' (PStr []) = Inr license_id \<and>
             py_get lib ''licenses'' (PList []) = Inr licenses \<and>
             py_iter licenses = Inr lics \<and>
             collect_texts lics = Inr texts \<and>
             extract_copyright texts name = Inr holder \<and>
             comps' = comps @ [(name, \<lparr>component = name, origin = repository,
                                        license = license_id, copyright = PStr holder\<rparr>)])"
  using assms
  by (auto simp: loop_body_def and_then_def py_in_def setitem_def
      split: sum.splits if_splits dest: extract_copyright_nonempty)

lemma loop_body_step:
  assumes "loop_body comps lib = Inr comps'"
  shows "comps' = comps \<or> (\<exists>n s. comps' = comps @ [(n, s)] \<and> component s = n
            \<and> \<not> list_ex (\<lambda>(k', v). py_eq k' n) comps
            \<and> py_get lib ''package_name'' (PStr []) = Inr n)"
  using loop_body_Inr [OF assms] by (auto split: if_splits)



subsection \<open>Well-formed manifests load\<close>

lemma extract_copyright_returns:
  "\<exists>r. extract_copyright (map PStr texts) (PStr n) = Inr r"
  by (simp add: extract_copyright_strings fallback_def split: option.splits)

lemma collect_texts_strings:
  "list_all (\<lambda>lic. str_field lic ''text'') lics \<Longrightarrow> \<exists>ts. collect_texts lics = Inr (map PStr ts)"
proof (induction lics)
  case Nil
  then show ?case by simp
next
  case (Cons lic lics)
  then obtain ts where ts: "collect_texts lics = Inr (map PStr ts)" by auto
  from Cons.prems obtain t where "py_get lic ''text'' (PStr []) = Inr (PStr t)"
    by (cases "py_get lic ''text'' (PStr [])"; cases "projr (py_get lic ''text'' (PStr []))")
       (auto simp: str_field_def)
  with ts have "collect_texts (lic # lics) = Inr (map PStr (t # ts))"
    by (simp add: and_then_def)
  then show ?case by blast
qed

lemma str_fieldE:
  assumes "str_field m key"
  obtains s where "py_get m key (PStr []) = Inr (PStr s)"
proof -
  from assms obtain v where "py_get m key (PStr []) = Inr v" "is_str v"
    by (auto simp: str_field_def split: sum.splits)
  then show ?thesis using that by (cases v) auto
qed

lemma loop_body_well_formed:
  assumes "well_formed_entry lib"
  shows "\<exists>comps'. loop_body comps lib = Inr comps'"
proof -
  from assms obtain n where n: "py_get lib ''package_name'' (PStr []) = Inr (PStr n)"
    by (auto simp: well_formed_entry_def elim: str_fieldE)
  from assms obtain v where v: "py_get lib ''package_version'' (PStr []) = Inr (PStr v)"
    by (auto simp: well_formed_entry_def elim: str_fieldE)
  from assms obtain r where r: "py_get lib ''repository'' (PStr []) = Inr (PStr r)"
    by (auto simp: well_formed_entry_def elim: str_fieldE)
  from assms obtain l where l: "py_get lib ''license'' (PStr []) = Inr (PStr l)"
    by (auto simp: well_formed_entry_def elim: str_fieldE)
  from assms obtain lics where lics: "py_get lib ''licenses'' (PList []) = Inr (PList lics)"
    and a: "list_all (\<lambda>lic. str_field lic ''text'') lics"
    by (auto simp: well_formed_entry_def split: sum.splits pyval.splits)
  from collect_texts_strings [OF a] obtain ts where ts: "collect_texts lics = Inr (map PStr ts)"
    by blast
  from extract_copyright_returns obtain h where h: "extract_copyright (map PStr ts) (PStr n) = Inr h"
    by blast
  then have "h \<noteq> []" by (rule extract_copyright_nonempty)
  with n v r l lics ts h show ?thesis
    by (simp add: loop_body_def and_then_def py_in_def)
qed

lemma loop_well_formed:
  "list_all well_formed_entry libs \<Longrightarrow> \<exists>comps'. loop comps libs = Inr comps'"
proof (induction libs arbitrary: comps)
  case Nil
  then show ?case by simp
next
  case (Cons lib libs)
  then obtain c1 where "loop_body comps lib = Inr c1"
    using loop_body_well_formed [of lib comps] by auto
  with Cons show ?case by (simp add: and_then_def)
qed

lemma parse_well_formed:
  "well_formed data \<Longrightarrow> \<exists>components. parse_yml_to_csv data = Inr components"
  by (auto simp: well_formed_def parse_yml_to_csv_def and_then_def loop_well_formed
      split: sum.splits pyval.splits)

lemma loop_body_default:
  assumes "key \<in> {''package_name'', ''package_version'', ''repository'', ''license''}"
    and "map_of kvs (PStr key) = None"
  shows "loop_body comps (PDict ((PStr key, PStr []) # kvs)) = loop_body comps (PDict kvs)"
proof -
  have a: "\<And>k. py_get (PDict ((PStr key, PStr []) # kvs)) k (PStr []) = py_get (PDict kvs) k (PStr [])"
    using assms(2) by simp
  have "key \<noteq> ''licenses''" using assms(1) by auto
  then have b: "py_get (PDict ((PStr key, PStr []) # kvs)) ''licenses'' (PList []) = py_get (PDict kvs) ''licenses'' (PList [])"
    by simp
  show ?thesis unfolding loop_body_def a b ..
qed

lemma collect_texts_default:
  assumes "map_of kvs (PStr ''text'') = None"
  shows "collect_texts (PDict ((PStr ''text'', PStr []) # kvs) # lics) = collect_texts (PDict kvs # lics)"
  using assms by simp

subsection \<open>Keys stay distinct\<close>

lemma loop_distinct_keys:
  assumes "loop comps libs = Inr comps'"
    and "distinct (map (\<lambda>(k, v). as_key k) comps)"
  shows "distinct (map (\<lambda>(k, v). as_key k) comps')"
  using assms
proof (induction libs arbitrary: comps)
  case Nil
  then show ?case by simp
next
  case (Cons lib libs)
  from Cons.prems(1) obtain c1 where b: "loop_body comps lib = Inr c1"
    and l: "loop c1 libs = Inr comps'"
    by (auto simp: and_then_def split: sum.splits)
  from loop_body_step [OF b] have "distinct (map (\<lambda>(k, v). as_key k) c1)"
  proof
    assume "c1 = comps"
    with Cons.prems(2) show ?thesis by simp
  next
    assume "\<exists>n s. c1 = comps @ [(n, s)] \<and> component s = n
        \<and> \<not> list_ex (\<lambda>(k', v). py_eq k' n) comps
        \<and> py_get lib ''package_name'' (PStr []) = Inr n"
    then obtain n s where c1: "c1 = comps @ [(n, s)]"
      and n: "\<not> list_ex (\<lambda>(k', v). py_eq k' n) comps" by blast
    from n have "as_key n \<notin> set (map (\<lambda>(k, v). as_key k) comps)"
      by (force simp: list_ex_iff py_eq_def)
    with c1 Cons.prems(2) show ?thesis by simp
  qed
  with Cons.IH [OF l] show ?case .
qed

lemma loop_component_is_key:
  assumes "loop comps libs = Inr comps'"
    and "list_all (\<lambda>(k, v). component v = k) comps"
  shows "list_all (\<lambda>(k, v). component v = k) comps'"
  using assms
proof (induction libs arbitrary: comps)
  case Nil
  then show ?case by simp
next
  case (Cons lib libs)
  from Cons.prems(1) obtain c1 where b: "loop_body comps lib = Inr c1"
    and l: "loop c1 libs = Inr comps'"
    by (auto simp: and_then_def split: sum.splits)
  from loop_body_step [OF b] Cons.prems(2) have "list_all (\<lambda>(k, v). component v = k) c1"
    by auto
  with Cons.IH [OF l] show ?case .
qed

lemma parse_distinct_names:
  assumes "parse_yml_to_csv data = Inr components"
    and "map snd components = map summary_of_row rows"
  shows "distinct (map fst rows)"
proof -
  from assms(1) obtain libs where l: "loop [] libs = Inr components"
    by (auto simp: parse_yml_to_csv_def and_then_def split: sum.splits)
  have d: "distinct (map (\<lambda>(k, v). as_key k) components)"
    using loop_distinct_keys [OF l] by simp
  have c: "list_all (\<lambda>(k, v). component v = k) components"
    using loop_component_is_key [OF l] by simp
  have "map (\<lambda>(k, v). as_key k) components = map (\<lambda>s. as_key (component s)) (map snd components)"
    using c by (induction components) auto
  also have "\<dots> = map (\<lambda>r. PStr (fst r)) rows"
    unfolding assms(2) by (simp add: summary_of_row_def split_def)
  finally have "distinct (map (\<lambda>r. PStr (fst r)) rows)" using d by simp
  then have "distinct (map PStr (map fst rows))" by (simp add: comp_def)
  then show ?thesis using distinct_map [of PStr "map fst rows"] by blast
qed

subsection \<open>The first record of a name wins\<close>



section \<open>Properties of the writer\<close>

lemma keyed_rows:
  "keyed (map summary_of_row rows) = Inr (map (\<lambda>r. (lower (fst r), summary_of_row r)) rows)"
  by (induction rows) (auto simp: and_then_def summary_of_row_def)

lemma insort_key_map_pair:
  "insort_key fst (f x, g x) (map (\<lambda>r. (f r, g r)) ys) = map (\<lambda>r. (f r, g r)) (insort_key f x ys)"
  by (induction ys) auto

lemma sort_key_map_pair:
  "sort_key fst (map (\<lambda>r. (f r, g r)) rows) = map (\<lambda>r. (f r, g r)) (sort_key f rows)"
  by (induction rows) (simp_all add: insort_key_map_pair)

lemma sorted_values_rows:
  assumes "map snd components = map summary_of_row rows"
  shows "sorted_values components = Inr (map summary_of_row (sort_key (\<lambda>r. lower (fst r)) rows))"
  by (simp add: sorted_values_def assms keyed_rows and_then_def sort_key_map_pair comp_def)

lemma csv_line_row: "csv_line (summary_of_row r) = Inr (csv_record r @ [NL])"
  by (cases r) (simp add: csv_line_def summary_of_row_def csv_record_def and_then_def)

lemma write_lines_rows:
  "write_lines f (map summary_of_row rs) = (f @ concat (map (\<lambda>r. csv_record r @ [NL]) rs), None)"
  by (induction rs arbitrary: f) (simp_all add: csv_line_row)

lemma write_csv_rows:
  assumes "map snd components = map summary_of_row rows"
  shows "write_csv components =
     (''Component,Origin,License,Copyright'' @ [NL] @
        concat (map (\<lambda>r. csv_record r @ [NL]) (sort_key (\<lambda>r. lower (fst r)) rows)), None)"
  by (simp add: write_csv_def sorted_values_rows [OF assms] write_lines_rows)

lemma split_no_sep: "sep \<notin> set l \<Longrightarrow> split sep l = [l]"
  by (induction l) auto

lemma split_append: "sep \<notin> set l \<Longrightarrow> split sep (l @ sep # rest) = l # split sep rest"
  by (induction l) auto

lemma split_lines:
  "\<forall>l \<in> set ls. NL \<notin> set l \<Longrightarrow> split NL (concat (map (\<lambda>l. l @ [NL]) ls)) = ls @ [[]]"
  by (induction ls) (simp_all add: split_append)

lemma doc_lines_concat:
  "\<forall>l \<in> set ls. NL \<notin> set l \<Longrightarrow> doc_lines (concat (map (\<lambda>l. l @ [NL]) ls)) = ls"
  by (simp add: doc_lines_def split_lines)

lemma set_replace: "set (replace old new s) \<subseteq> insert new (set s)"
  by (auto simp: replace_def)

lemma replace_removes: "old \<noteq> new \<Longrightarrow> old \<notin> set (replace old new s)"
  by (auto simp: replace_def)

lemma NL_not_comma: "NL \<noteq> CHR '';''" "NL \<noteq> CHR '',''"
  by (simp_all add: NL_def)

lemma csv_record_no_NL:
  assumes "case r of (name, orig, lic, copy) \<Rightarrow> NL \<notin> set (name @ orig @ lic @ copy)"
  shows "NL \<notin> set (csv_record r)"
  using assms set_replace [of "CHR '',''" "CHR '';''"] NL_not_comma
  by (cases r) (auto simp: csv_record_def)

lemma hd_split_csv_record:
  "hd (split (CHR '','') (csv_record r)) = replace (CHR '','') (CHR '';'') (fst r)"
proof (cases r)
  case (fields name orig lic copy)
  have "CHR '','' \<notin> set (replace (CHR '','') (CHR '';'') name)"
    by (rule replace_removes) simp
  from split_append [OF this] fields show ?thesis
    by (simp add: csv_record_def)
qed

lemma no_NL_records:
  assumes "list_all (\<lambda>(name, orig, lic, copy). NL \<notin> set (name @ orig @ lic @ copy)) rows"
    and "set rs = set rows"
  shows "\<forall>l \<in> set (map csv_record rs). NL \<notin> set l"
  using assms csv_record_no_NL by (auto simp: list_all_iff)

lemma document_lines:
  assumes "map snd components = map summary_of_row rows"
    and "list_all (\<lambda>(name, orig, lic, copy). NL \<notin> set (name @ orig @ lic @ copy)) rows"
  shows "\<exists>doc. write_csv components = (doc, None) \<and>
           doc_lines doc = ''Component,Origin,License,Copyright''
                             # map csv_record (sort_key (\<lambda>r. lower (fst r)) rows)"
proof -
  let ?rs = "sort_key (\<lambda>r. lower (fst r)) rows"
  let ?ls = "''Component,Origin,License,Copyright'' # map csv_record ?rs"
  have "\<forall>l \<in> set (map csv_record ?rs). NL \<notin> set l"
    by (rule no_NL_records [OF assms(2)]) simp
  moreover have "NL \<notin> set ''Component,Origin,License,Copyright''"
    by (simp add: NL_def)
  ultimately have "\<forall>l \<in> set ?ls. NL \<notin> set l" by simp
  from doc_lines_concat [OF this]
  have "doc_lines (''Component,Origin,License,Copyright'' @ [NL] @
          concat (map (\<lambda>r. csv_record r @ [NL]) ?rs)) = ?ls"
    by (simp add: comp_def)
  with write_csv_rows [OF assms(1)] show ?thesis by simp
qed

subsection \<open>Header, one line per summary, sorted\<close>

text \<open>
  Claim C7, as amended. For summaries with string fields that contain no line feed, the
  writer raises nothing, and the lines of the document are the header followed by one
  line per summary, in an order that is a rearrangement of the summaries sorted by
  lowercased component name.
\<close>

theorem sorted_document:
  assumes "map snd components = map summary_of_row rows"
    and "list_all (\<lambda>(name, orig, lic, copy). NL \<notin> set (name @ orig @ lic @ copy)) rows"
  shows "\<exists>doc sorted_rows. write_csv components = (doc, None) \<and>
           mset sorted_rows = mset rows \<and>
           sorted (map (\<lambda>r. lower (fst r)) sorted_rows) \<and>
           doc_lines doc = ''Component,Origin,License,Copyright'' # map csv_record sorted_rows"
proof -
  from document_lines [OF assms] obtain doc where
    "write_csv components = (doc, None)"
    "doc_lines doc = ''Component,Origin,License,Copyright''
                       # map csv_record (sort_key (\<lambda>r. lower (fst r)) rows)"
    by blast
  moreover have "mset (sort_key (\<lambda>r. lower (fst r)) rows) = mset rows" by simp
  moreover have "sorted (map (\<lambda>r. lower (fst r)) (sort_key (\<lambda>r. lower (fst r)) rows))"
    by (rule sorted_sort_key)
  ultimately show ?thesis by blast
qed

theorem sorted_document_witness:
  "write_csv example_components
     = (''Component,Origin,License,Copyright\<newline>Abc,,MIT,The Abc Authors\<newline>libc,https://c,MIT,The Rust Project Developers\<newline>serde,https://a,MIT; Apache-2.0,Erick Tolnay\<newline>'', None)
   \<and> (\<exists>doc. write_csv example_components = (doc, None) \<and>
        doc_lines doc = [''Component,Origin,License,Copyright'', ''Abc,,MIT,The Abc Authors'',
          ''libc,https://c,MIT,The Rust Project Developers'',
          ''serde,https://a,MIT; Apache-2.0,Erick Tolnay''])"
proof -
  let ?rows = "[(''serde'', ''https://a'', ''MIT, Apache-2.0'', ''Erick Tolnay''),
                (''Abc'', [], ''MIT'', ''The Abc Authors''),
                (''libc'', ''https://c'', ''MIT'', ''The Rust Project Developers'')]"
  have a: "map snd example_components = map summary_of_row ?rows"
    by (simp add: example_components_def)
  have b: "list_all (\<lambda>(name, orig, lic, copy). NL \<notin> set (name @ orig @ lic @ copy)) ?rows"
    by (simp add: NL_def)
  from sorted_document [OF a b] obtain doc sorted_rows where
    w: "write_csv example_components = (doc, None)"
    and m: "mset sorted_rows = mset ?rows"
    and l: "doc_lines doc = ''Component,Origin,License,Copyright'' # map csv_record sorted_rows"
    by blast
  have e: "write_csv example_components = (''Component,Origin,License,Copyright\<newline>Abc,,MIT,The Abc Authors\<newline>libc,https://c,MIT,The Rust Project Developers\<newline>serde,https://a,MIT; Apache-2.0,Erick Tolnay\<newline>'', None)"
    by code_simp
  have d: "doc_lines ''Component,Origin,License,Copyright\<newline>Abc,,MIT,The Abc Authors\<newline>libc,https://c,MIT,The Rust Project Developers\<newline>serde,https://a,MIT; Apache-2.0,Erick Tolnay\<newline>''
     = [''Component,Origin,License,Copyright'', ''Abc,,MIT,The Abc Authors'',
        ''libc,https://c,MIT,The Rust Project Developers'', ''serde,https://a,MIT; Apache-2.0,Erick Tolnay'']"
    by code_simp
  from w e have "doc = ''Component,Origin,License,Copyright\<newline>Abc,,MIT,The Abc Authors\<newline>libc,https://c,MIT,The Rust Project Developers\<newline>serde,https://a,MIT; Apache-2.0,Erick Tolnay\<newline>''"
    by simp
  with w d e show ?thesis by simp
qed

text \<open>
  Claim C7 as it is stated fails: a summary whose origin contains a line feed takes two
  lines of the document.
\<close>

theorem sorted_document_counterexample:
  "write_csv [(PStr ''x'', summary_of_row (''x'', ''a\<newline>b'', ''MIT'', ''c''))]
     = (''Component,Origin,License,Copyright\<newline>x,a\<newline>b,MIT,c\<newline>'', None)
   \<and> doc_lines ''Component,Origin,License,Copyright\<newline>x,a\<newline>b,MIT,c\<newline>''
     = [''Component,Origin,License,Copyright'', ''x,a'', ''b,MIT,c'']"
  by code_simp

subsection \<open>Rows are keyed by component name\<close>

text \<open>
  Claim C6, as amended. Take a manifest that loads with string fields, none of which
  contains a line feed, and in which no two different component names become equal when
  their commas are replaced by semicolons. Then the writer writes one body line per
  component, and no two body lines have the same Component field (the text before the
  first comma of the line).
\<close>

theorem unique_component_fields:
  assumes "parse_yml_to_csv data = Inr components"
    and "map snd components = map summary_of_row rows"
    and "list_all (\<lambda>(name, orig, lic, copy). NL \<notin> set (name @ orig @ lic @ copy)) rows"
    and "inj_on (replace (CHR '','') (CHR '';'')) (set (map fst rows))"
  shows "\<exists>doc. write_csv components = (doc, None) \<and>
           length (tl (doc_lines doc)) = length components \<and>
           distinct (map (\<lambda>line. hd (split (CHR '','') line)) (tl (doc_lines doc)))"
proof -
  let ?rs = "sort_key (\<lambda>r. lower (fst r)) rows"
  let ?esc = "replace (CHR '','') (CHR '';'')"
  from document_lines [OF assms(2,3)] obtain doc where
    w: "write_csv components = (doc, None)"
    and l: "doc_lines doc = ''Component,Origin,License,Copyright'' # map csv_record ?rs"
    by blast
  have d: "distinct (map fst rows)"
    by (rule parse_distinct_names [OF assms(1,2)])
  have e: "map (\<lambda>line. hd (split (CHR '','') line)) (map csv_record ?rs)
      = map (\<lambda>r. ?esc (fst r)) ?rs"
    by (simp add: hd_split_csv_record)
  from d assms(4) have "distinct (map ?esc (map fst rows))"
    by (simp only: distinct_map)
  then have "distinct (map (\<lambda>r. ?esc (fst r)) rows)"
    by (simp add: comp_def)
  moreover have "mset (map (\<lambda>r. ?esc (fst r)) ?rs) = mset (map (\<lambda>r. ?esc (fst r)) rows)"
    by simp
  ultimately have "distinct (map (\<lambda>r. ?esc (fst r)) ?rs)"
    by (metis mset_eq_imp_distinct_iff)
  moreover have "length ?rs = length components"
    using assms(2) by (metis length_map length_sort)
  moreover from l have t: "tl (doc_lines doc) = map csv_record ?rs" by simp
  ultimately have "length (tl (doc_lines doc)) = length components"
    and "distinct (map (\<lambda>line. hd (split (CHR '','') line)) (tl (doc_lines doc)))"
    unfolding t e by simp_all
  with w show ?thesis by blast
qed

theorem unique_component_fields_witness:
  "parse_yml_to_csv two_manifest =
     Inr [(PStr ''b,c'', summary_of_row (''b,c'', [], [], ''The b,c Authors'')),
          (PStr ''a'', summary_of_row (''a'', [], ''MIT'', ''The a Authors''))]
   \<and> (\<exists>doc. write_csv [(PStr ''b,c'', summary_of_row (''b,c'', [], [], ''The b,c Authors'')),
                         (PStr ''a'', summary_of_row (''a'', [], ''MIT'', ''The a Authors''))] = (doc, None)
        \<and> length (tl (doc_lines doc)) = 2
        \<and> distinct (map (\<lambda>line. hd (split (CHR '','') line)) (tl (doc_lines doc))))"
proof -
  let ?rows = "[(''b,c'', [], [], ''The b,c Authors''), (''a'', [], ''MIT'', ''The a Authors'')]"
  let ?components = "[(PStr ''b,c'', summary_of_row (''b,c'', [], [], ''The b,c Authors'')),
                      (PStr ''a'', summary_of_row (''a'', [], ''MIT'', ''The a Authors''))]"
  have p: "parse_yml_to_csv two_manifest = Inr ?components"
    by code_simp
  have a: "map snd ?components = map summary_of_row ?rows" by simp
  have b: "list_all (\<lambda>(name, orig, lic, copy). NL \<notin> set (name @ orig @ lic @ copy)) ?rows"
    by (simp add: NL_def)
  have c: "inj_on (replace (CHR '','') (CHR '';'')) (set (map fst ?rows))"
    by (simp add: replace_def)
  from unique_component_fields [OF p a b c] p show ?thesis
    by (simp add: numeral_2_eq_2)
qed

text \<open>
  Claim C6 as it is stated fails: the names \<^verbatim>\<open>a,b\<close> and \<^verbatim>\<open>a;b\<close> are two components, and
  both are written with the Component field \<^verbatim>\<open>a;b\<close>; and two names with a line feed before
  the same last line give body lines with the same Component field.
\<close>

theorem unique_component_fields_counterexample:
  "main (Some comma_manifest)
     = (Some ''Component,Origin,License,Copyright\<newline>a;b,,,The a;b Authors\<newline>a;b,,,The a;b Authors\<newline>'', Exit0)
   \<and> map (\<lambda>line. hd (split (CHR '','') line))
        (tl (doc_lines ''Component,Origin,License,Copyright\<newline>a;b,,,The a;b Authors\<newline>a;b,,,The a;b Authors\<newline>''))
     = [''a;b'', ''a;b'']
   \<and> main (Some break_manifest)
     = (Some ''Component,Origin,License,Copyright\<newline>a\<newline>z,,,The a\<newline>z Authors\<newline>b\<newline>z,,,The b\<newline>z Authors\<newline>'', Exit0)
   \<and> map (\<lambda>line. hd (split (CHR '','') line))
        (tl (doc_lines ''Component,Origin,License,Copyright\<newline>a\<newline>z,,,The a\<newline>z Authors\<newline>b\<newline>z,,,The b\<newline>z Authors\<newline>''))
     = [''a'', ''z'', ''z Authors'', ''b'', ''z'', ''z Authors'']"
  by code_simp

subsection \<open>No comma inside a field\<close>

text \<open>
  Claim C8. For every summary with string fields, what the writer writes is the four
  fields joined with commas and ended by a line feed, where each field is the source value
  with every comma replaced by a semicolon; no field contains a comma, so that splitting
  the line at its commas gives back exactly the four fields. And the document, for any
  summaries with string fields, is the header line followed by these lines, one per
  summary.
\<close>

theorem commas_replaced:
  "(\<exists>f1 f2 f3 f4.
     csv_line \<lparr>component = PStr name, origin = PStr orig, license = PStr lic, copyright = PStr copy\<rparr>
       = Inr (f1 @ '','' @ f2 @ '','' @ f3 @ '','' @ f4 @ [NL]) \<and>
     f1 = map (\<lambda>c. if c = CHR '','' then CHR '';'' else c) name \<and>
     f2 = map (\<lambda>c. if c = CHR '','' then CHR '';'' else c) orig \<and>
     f3 = map (\<lambda>c. if c = CHR '','' then CHR '';'' else c) lic \<and>
     f4 = map (\<lambda>c. if c = CHR '','' then CHR '';'' else c) copy \<and>
     CHR '','' \<notin> set f1 \<and> CHR '','' \<notin> set f2 \<and> CHR '','' \<notin> set f3 \<and> CHR '','' \<notin> set f4 \<and>
     split (CHR '','') (f1 @ '','' @ f2 @ '','' @ f3 @ '','' @ f4) = [f1, f2, f3, f4])
   \<and> (\<exists>sorted_rows. mset sorted_rows = mset rows \<and>
        write_csv (map (\<lambda>r. (key r, summary_of_row r)) rows)
          = (''Component,Origin,License,Copyright'' @ [NL] @
               concat (map (\<lambda>r. csv_record r @ [NL]) sorted_rows), None))"
proof -
  let ?e = "replace (CHR '','') (CHR '';'')"
  have n: "\<And>s. CHR '','' \<notin> set (?e s)"
    by (rule replace_removes) simp
  have "split (CHR '','') (?e name @ '','' @ ?e orig @ '','' @ ?e lic @ '','' @ ?e copy)
      = [?e name, ?e orig, ?e lic, ?e copy]"
    using n by (simp add: split_append split_no_sep)
  moreover have "csv_line \<lparr>component = PStr name, origin = PStr orig, license = PStr lic, copyright = PStr copy\<rparr>
       = Inr (?e name @ '','' @ ?e orig @ '','' @ ?e lic @ '','' @ ?e copy @ [NL])"
    by (simp add: csv_line_def and_then_def)
  ultimately have first: "\<exists>f1 f2 f3 f4.
     csv_line \<lparr>component = PStr name, origin = PStr orig, license = PStr lic, copyright = PStr copy\<rparr>
       = Inr (f1 @ '','' @ f2 @ '','' @ f3 @ '','' @ f4 @ [NL]) \<and>
     f1 = map (\<lambda>c. if c = CHR '','' then CHR '';'' else c) name \<and>
     f2 = map (\<lambda>c. if c = CHR '','' then CHR '';'' else c) orig \<and>
     f3 = map (\<lambda>c. if c = CHR '','' then CHR '';'' else c) lic \<and>
     f4 = map (\<lambda>c. if c = CHR '','' then CHR '';'' else c) copy \<and>
     CHR '','' \<notin> set f1 \<and> CHR '','' \<notin> set f2 \<and> CHR '','' \<notin> set f3 \<and> CHR '','' \<notin> set f4 \<and>
     split (CHR '','') (f1 @ '','' @ f2 @ '','' @ f3 @ '','' @ f4) = [f1, f2, f3, f4]"
    using n by (simp add: replace_def)
  let ?rs = "sort_key (\<lambda>r. lower (fst r)) rows"
  have "map snd (map (\<lambda>r. (key r, summary_of_row r)) rows) = map summary_of_row rows"
    by (simp add: comp_def)
  from write_csv_rows [OF this]
  have "write_csv (map (\<lambda>r. (key r, summary_of_row r)) rows)
          = (''Component,Origin,License,Copyright'' @ [NL] @
               concat (map (\<lambda>r. csv_record r @ [NL]) ?rs), None)"
    by simp
  moreover have "mset ?rs = mset rows" by simp
  ultimately have "\<exists>sorted_rows. mset sorted_rows = mset rows \<and>
        write_csv (map (\<lambda>r. (key r, summary_of_row r)) rows)
          = (''Component,Origin,License,Copyright'' @ [NL] @
               concat (map (\<lambda>r. csv_record r @ [NL]) sorted_rows), None)"
    by blast
  with first show ?thesis by blast
qed

section \<open>Properties of the program\<close>

subsection \<open>Missing fields\<close>

text \<open>
  Claim C9, as amended. A well-formed manifest, in which any of the optional fields may be
  missing, always loads. A missing \<^verbatim>\<open>package_name\<close>, \<^verbatim>\<open>package_version\<close>, \<^verbatim>\<open>repository\<close> or
  \<^verbatim>\<open>license\<close> of an entry, and a missing \<^verbatim>\<open>text\<close> of a license object, default to the
  empty string: the entry is processed as the same entry with the field present and
  empty.
\<close>

theorem missing_fields_default:
  "(well_formed data \<longrightarrow> (\<exists>components. parse_yml_to_csv data = Inr components)) \<and>
   (key \<in> {''package_name'', ''package_version'', ''repository'', ''license''} \<and>
    map_of kvs (PStr key) = None \<longrightarrow>
      loop_body comps (PDict kvs) = loop_body comps (PDict ((PStr key, PStr []) # kvs))) \<and>
   (map_of kvs (PStr ''text'') = None \<longrightarrow>
      collect_texts (PDict kvs # lics) = collect_texts (PDict ((PStr ''text'', PStr []) # kvs) # lics))"
  using parse_well_formed [of data] loop_body_default [of key kvs comps]
    collect_texts_default [of kvs lics]
  by auto

theorem missing_fields_default_witness:
  "well_formed sparse_manifest \<and>
   (\<exists>components. parse_yml_to_csv sparse_manifest = Inr components) \<and>
   parse_yml_to_csv sparse_manifest =
     Inr [(PStr [], \<lparr>component = PStr [], origin = PStr [], license = PStr [],
                     copyright = PStr ''The  Authors''\<rparr>),
          (PStr ''serde'', \<lparr>component = PStr ''serde'', origin = PStr [], license = PStr [],
                            copyright = PStr ''The serde Authors''\<rparr>)] \<and>
   loop_body [] (PDict []) = loop_body [] (PDict [(PStr ''repository'', PStr [])]) \<and>
   collect_texts [PDict []] = collect_texts [PDict [(PStr ''text'', PStr [])]]"
proof -
  have w: "well_formed sparse_manifest" by code_simp
  have k: "''repository'' \<in> {''package_name'', ''package_version'', ''repository'', ''license''}"
    by simp
  have m: "map_of ([] :: (pyval \<times> pyval) list) (PStr ''repository'') = None"
    "map_of ([] :: (pyval \<times> pyval) list) (PStr ''text'') = None" by simp_all
  have p: "parse_yml_to_csv sparse_manifest =
     Inr [(PStr [], \<lparr>component = PStr [], origin = PStr [], license = PStr [],
                     copyright = PStr ''The  Authors''\<rparr>),
          (PStr ''serde'', \<lparr>component = PStr ''serde'', origin = PStr [], license = PStr [],
                            copyright = PStr ''The serde Authors''\<rparr>)]"
    by code_simp
  from missing_fields_default [of sparse_manifest "''repository''" "[]" "[]" "[]"] w k m p
  show ?thesis by blast
qed

text \<open>
  Claim C9 as it is stated fails for a malformed field: one entry whose \<^verbatim>\<open>package_name\<close> is
  the number 42 makes the load of the whole manifest raise, although the entry before it is
  well formed. A field that is present and null is not defaulted either: a null
  \<^verbatim>\<open>repository\<close> passes the load and makes the writer raise after the header.
\<close>

theorem missing_fields_default_counterexample:
  "parse_yml_to_csv bad_manifest = Inl AttributeError
   \<and> main (Some bad_manifest) = (None, Raised AttributeError)
   \<and> main (Some null_manifest)
       = (Some ''Component,Origin,License,Copyright\<newline>'', Raised AttributeError)"
  by code_simp

subsection \<open>The empty manifest\<close>

text \<open>
  Claim C10, as amended. When the parsed manifest is a mapping in which the key
  \<^verbatim>\<open>third_party_libraries\<close> is absent, or holds an empty sequence (or an empty mapping, or an
  empty string), the program ends normally and the document is exactly one line, the
  header.
\<close>

theorem empty_manifest:
  assumes "map_of kvs (PStr ''third_party_libraries'')
             \<in> {None, Some (PList []), Some (PDict []), Some (PStr [])}"
  shows "main (Some (PDict kvs)) = (Some ''Component,Origin,License,Copyright\<newline>'', Exit0) \<and>
         doc_lines ''Component,Origin,License,Copyright\<newline>'' = [''Component,Origin,License,Copyright'']"
proof -
  from assms have "parse_yml_to_csv (PDict kvs) = Inr []"
    by (auto simp: parse_yml_to_csv_def and_then_def)
  moreover have "write_csv [] = (''Component,Origin,License,Copyright\<newline>'', None)"
    by (simp add: write_csv_def sorted_values_def and_then_def NL_def)
  moreover have "doc_lines ''Component,Origin,License,Copyright\<newline>'' = [''Component,Origin,License,Copyright'']"
    by code_simp
  ultimately show ?thesis by (simp add: main_def)
qed

theorem empty_manifest_witness:
  "main (Some (PDict [])) = (Some ''Component,Origin,License,Copyright\<newline>'', Exit0) \<and>
   main (Some (PDict [(PStr ''third_party_libraries'', PList [])]))
     = (Some ''Component,Origin,License,Copyright\<newline>'', Exit0)"
proof -
  have a: "map_of ([] :: (pyval \<times> pyval) list) (PStr ''third_party_libraries'')
      \<in> {None, Some (PList []), Some (PDict []), Some (PStr [])}" by simp
  have b: "map_of [(PStr ''third_party_libraries'', PList [])] (PStr ''third_party_libraries'')
      \<in> {None, Some (PList []), Some (PDict []), Some (PStr [])}" by simp
  from empty_manifest [OF a] empty_manifest [OF b] show ?thesis by blast
qed

text \<open>
  Claim C10 as it is stated fails: with a null under the key there are no entries, yet the
  loop header raises \<^verbatim>\<open>TypeError\<close>; and an empty document, which \<^verbatim>\<open>yaml.safe_load\<close> parses
  to \<^verbatim>\<open>None\<close>, has no \<^verbatim>\<open>get\<close> and raises \<^verbatim>\<open>AttributeError\<close>. In both cases no document
  is written.
\<close>

theorem empty_manifest_counterexample:
  "main (Some (PDict [(PStr ''third_party_libraries'', PNone)])) = (None, Raised TypeError)
   \<and> main (Some PNone) = (None, Raised AttributeError)"
  by code_simp

end
